theory Spec2Isabelle
  imports Main "HOL-Library.Multiset" "HOL-Library.AList"
begin

section \<open>Cards War: the data model of cards\_war.py\<close>

text \<open>
  The exceptions the program can raise: the \<open>assert\<close> of the constructor, an index out
  of range (\<open>winingPlayers[0]\<close>, \<open>players[i]\<close>, \<open>popleft\<close> of an empty deque) and the
  integer division of \<open>distributeCards\<close>.
\<close>

datatype error = AssertionError | IndexError | ZeroDivisionError

text \<open>Class \<open>Card\<close>: a rank (a Python integer) and a suit.\<close>

record Card =
  number :: int
  color :: string

text \<open>\<open>Card()\<close>: the default arguments \<open>number=0, color="0"\<close>.\<close>

definition Card0 :: Card where
  "Card0 = \<lparr>number = 0, color = ''0''\<rparr>"

text \<open>\<open>Card.__gt__\<close> and \<open>Card.__eq__\<close> compare the ranks only.\<close>

definition card_gt :: "Card \<Rightarrow> Card \<Rightarrow> bool" where
  "card_gt c other = (number c > number other)"

definition card_eq :: "Card \<Rightarrow> Card \<Rightarrow> bool" where
  "card_eq c other = (number c = number other)"

subsection \<open>The random source and \<open>random.shuffle\<close>\<close>

text \<open>
  The state of module \<open>random\<close> is an infinite sequence of draws that are still to come.
  \<open>randbelow n\<close> takes the next draw, reduced below \<open>n\<close>. \<open>random.shuffle\<close> is the
  library's loop
  \<^verbatim>\<open>for i in reversed(range(1, len(x))): j = randbelow(i + 1); x[i], x[j] = x[j], x[i]\<close>
\<close>

type_synonym rng = "nat \<Rightarrow> nat"

definition randbelow :: "nat \<Rightarrow> rng \<Rightarrow> nat \<times> rng" where
  "randbelow n r = (r 0 mod n, \<lambda>k. r (Suc k))"

fun shuffle_loop :: "nat \<Rightarrow> 'a list \<Rightarrow> rng \<Rightarrow> 'a list \<times> rng" where
  "shuffle_loop 0 x r = (x, r)"
| "shuffle_loop (Suc i) x r =
     (case randbelow (Suc i + 1) r of
        (j, r') \<Rightarrow> shuffle_loop i (x[Suc i := x ! j, j := x ! Suc i]) r')"

definition shuffle :: "'a list \<Rightarrow> rng \<Rightarrow> 'a list \<times> rng" where
  "shuffle x r = shuffle_loop (length x - 1) x r"

subsection \<open>\<open>collections.deque\<close> with \<open>maxlen=56\<close>\<close>

text \<open>
  A bounded deque keeps its last \<open>maxlen\<close> items: building one from a longer list, or
  extending it beyond the bound, discards items from the left. \<open>popleft\<close> of an empty
  deque raises \<open>IndexError\<close>.
\<close>

definition maxlen :: nat where
  "maxlen = 56"

definition deque :: "Card list \<Rightarrow> Card list" where
  "deque xs = drop (length xs - maxlen) xs"

definition extend_deque :: "Card list \<Rightarrow> Card list \<Rightarrow> Card list" where
  "extend_deque h xs = deque (h @ xs)"

fun popleft :: "Card list \<Rightarrow> error + (Card \<times> Card list)" where
  "popleft [] = Inl IndexError"
| "popleft (c # h) = Inr (c, h)"

subsection \<open>Class \<open>Player\<close>\<close>

record Player =
  name :: string
  hand :: "Card list"
  won_cards :: "Card list"

text \<open>\<open>Player(name)\<close>: an empty hand and an empty pile of won cards.\<close>

definition new_Player :: "string \<Rightarrow> Player" where
  "new_Player n = \<lparr>name = n, hand = deque [], won_cards = []\<rparr>"

definition score :: "Player \<Rightarrow> nat" where
  "score p = length (hand p) + length (won_cards p)"

text \<open>
  \<open>refill_hand\<close> shuffles the won cards in place, replaces the hand by a deque of them
  and replaces the won cards by a new empty list.
\<close>

definition refill_hand :: "Player \<Rightarrow> rng \<Rightarrow> Player \<times> rng" where
  "refill_hand p r =
     (case shuffle (won_cards p) r of
        (w, r') \<Rightarrow> (p\<lparr>hand := deque w, won_cards := []\<rparr>, r'))"

definition isEmptyHand :: "Player \<Rightarrow> bool" where
  "isEmptyHand p = (length (hand p) = 0)"

text \<open>
  \<open>playCard\<close> returns the card played (or the exception of \<open>popleft\<close>), together with
  the player and the random source as the call leaves them.
\<close>

definition playCard :: "Player \<Rightarrow> rng \<Rightarrow> (error + Card) \<times> Player \<times> rng" where
  "playCard p r =
     (if score p = 0 then (Inr Card0, p, r)
      else
        (case (if isEmptyHand p then refill_hand p r else (p, r)) of
           (p1, r1) \<Rightarrow>
             (case popleft (hand p1) of
                Inl e \<Rightarrow> (Inl e, p1, r1)
              | Inr (c, h) \<Rightarrow> (Inr c, p1\<lparr>hand := h\<rparr>, r1))))"

section \<open>Class \<open>cardsWar\<close>\<close>

subsection \<open>Dictionaries and the score table\<close>

text \<open>
  A Python dictionary keeps its keys in insertion order and a key that is assigned again
  keeps its place: an association list with \<open>AList.update\<close>. \<open>d1 | d2\<close> is \<open>d1\<close>
  updated with the items of \<open>d2\<close> in order. A row of the score table is such a
  dictionary from column names to integers, and the table \<open>self.score\<close> is the list of
  its rows; the conversion of the cells to the column type of the external table
  library is not part of the model.
\<close>

type_synonym 'v dict = "(string \<times> 'v) list"

definition dict_or :: "'v dict \<Rightarrow> 'v dict \<Rightarrow> 'v dict" where
  "dict_or d1 d2 = fold (\<lambda>(k, v). AList.update k v) d2 d1"

datatype dtype = Int16

subsection \<open>The game object\<close>

text \<open>
  The \<open>Player\<close> objects live in a store from addresses to objects; \<open>self.players\<close> and
  the lists of active players hold addresses, since the rounds mutate the players
  through these lists. \<open>rng\<close> is the state of module \<open>random\<close>.
\<close>

record game =
  heap :: "nat \<Rightarrow> Player"
  players :: "nat list"
  round :: int
  scoreSchema :: "dtype dict"
  score_df :: "int dict list"
  latestResults :: "int dict"
  rng :: rng

text \<open>\<open>str\<close> of a natural number, for \<open>f"Player {i + 1}"\<close>.\<close>

fun str :: "nat \<Rightarrow> string" where
  "str n = (if n < 10 then [''0123456789'' ! n]
            else str (n div 10) @ [''0123456789'' ! (n mod 10)])"

declare str.simps [simp del]

definition names_scores :: "game \<Rightarrow> int dict" where
  "names_scores g =
     fold (\<lambda>a. AList.update (name (heap g a)) (int (score (heap g a)))) (players g) []"

definition names_dtypes :: "(nat \<Rightarrow> Player) \<Rightarrow> nat list \<Rightarrow> dtype dict" where
  "names_dtypes h ps = fold (\<lambda>a. AList.update (name (h a)) Int16) ps []"

text \<open>
  \<open>cardsWar(playersCount)\<close>: the assertion, then the players \<open>Player 1\<close>, \<open>Player 2\<close>, ...
  at the addresses \<open>0, 1, ...\<close>, round 0, the schema and an empty table. The random source
  is the one of the process.
\<close>

definition init :: "int \<Rightarrow> rng \<Rightarrow> error + game" where
  "init playersCount r =
     (if playersCount \<ge> 2 \<and> 56 mod playersCount = 0 then
        (let h = (\<lambda>i. new_Player (''Player '' @ str (i + 1)));
             ps = [0..<nat playersCount]
         in Inr \<lparr>heap = h, players = ps, round = 0,
                 scoreSchema = dict_or (dict_or [(''Round'', Int16)] (names_dtypes h ps))
                                 [(''Total'', Int16)],
                 score_df = [], latestResults = [], rng = r\<rparr>)
      else Inl AssertionError)"

definition CreateShuffleDeck :: "rng \<Rightarrow> Card list \<times> rng" where
  "CreateShuffleDeck r =
     shuffle (concat (map (\<lambda>num. map (\<lambda>color. \<lparr>number = int num + 1, color = color\<rparr>)
                                    [''BC'', ''BS'', ''RD'', ''RH'']) [0..<13])) r"

text \<open>The loop of \<open>distributeCards\<close> over \<open>enumerate(self.players)\<close>, from index \<open>i\<close> on.\<close>

fun distribute_loop :: "Card list \<Rightarrow> nat \<Rightarrow> nat \<Rightarrow> nat list \<Rightarrow> (nat \<Rightarrow> Player) \<Rightarrow> nat \<Rightarrow> Player" where
  "distribute_loop deck cardsPerPlayer i [] h = h"
| "distribute_loop deck cardsPerPlayer i (player # rest) h =
     distribute_loop deck cardsPerPlayer (i + 1) rest
       (h(player := (h player)\<lparr>hand :=
            extend_deque (hand (h player))
              (take ((i + 1) * cardsPerPlayer - i * cardsPerPlayer)
                 (drop (i * cardsPerPlayer) deck))\<rparr>))"

definition distributeCards :: "game \<Rightarrow> (error + unit) \<times> game" where
  "distributeCards g =
     (case CreateShuffleDeck (rng g) of
        (deck, r') \<Rightarrow>
          (if length (players g) = 0 then (Inl ZeroDivisionError, g\<lparr>rng := r'\<rparr>)
           else
             (let cardsPerPlayer = length deck div length (players g)
              in (Inr (), g\<lparr>heap := distribute_loop deck cardsPerPlayer 0 (players g) (heap g),
                            rng := r'\<rparr>))))"

text \<open>
  \<open>get_played_cards\<close>: the comprehension calls \<open>playCard\<close> on each player in order; an
  exception leaves the players as they are at that moment.
\<close>

fun get_played_cards :: "nat list \<Rightarrow> game \<Rightarrow> (error + Card list) \<times> game" where
  "get_played_cards [] g = (Inr [], g)"
| "get_played_cards (player # rest) g =
     (case playCard (heap g player) (rng g) of
        (Inl e, p', r') \<Rightarrow> (Inl e, g\<lparr>heap := (heap g)(player := p'), rng := r'\<rparr>)
      | (Inr crd, p', r') \<Rightarrow>
          (case get_played_cards rest (g\<lparr>heap := (heap g)(player := p'), rng := r'\<rparr>) of
             (Inl e, g') \<Rightarrow> (Inl e, g')
           | (Inr cards, g') \<Rightarrow> (Inr (crd # cards), g')))"

text \<open>
  The loop of \<open>find_winning_players\<close> over \<open>enumerate(playedCards)\<close>, from index \<open>i\<close> on,
  with the local variables \<open>winingPlayers\<close> and \<open>highestCard\<close>.
\<close>

fun find_winning_loop :: "nat list \<Rightarrow> nat \<Rightarrow> Card list \<Rightarrow> nat list \<Rightarrow> Card \<Rightarrow> error + nat list" where
  "find_winning_loop plrs i [] winingPlayers highestCard = Inr winingPlayers"
| "find_winning_loop plrs i (crd # rest) winingPlayers highestCard =
     (if number crd = 0 then
        find_winning_loop plrs (i + 1) rest winingPlayers highestCard
      else if card_gt crd highestCard then
        (if i < length plrs
         then find_winning_loop plrs (i + 1) rest [plrs ! i] crd
         else Inl IndexError)
      else if card_eq crd highestCard then
        (if i < length plrs
         then find_winning_loop plrs (i + 1) rest (winingPlayers @ [plrs ! i]) highestCard
         else Inl IndexError)
      else find_winning_loop plrs (i + 1) rest winingPlayers highestCard)"

definition find_winning_players :: "nat list \<Rightarrow> Card list \<Rightarrow> error + nat list" where
  "find_winning_players plrs playedCards = find_winning_loop plrs 0 playedCards [] Card0"

definition update_scoreboard :: "game \<Rightarrow> game" where
  "update_scoreboard g =
     (let row = dict_or (dict_or [(''Round'', round g)] (names_scores g))
                  [(''Total'', sum_list (map (\<lambda>a. int (score (heap g a))) (players g)))]
      in g\<lparr>latestResults := row, score_df := score_df g @ [row]\<rparr>)"

definition award_cards :: "nat \<Rightarrow> Card list \<Rightarrow> Card list \<Rightarrow> game \<Rightarrow> game" where
  "award_cards winner playedCards field g =
     (let p = heap g winner;
          p1 = p\<lparr>won_cards := won_cards p @ filter (\<lambda>crd. number crd \<noteq> 0) playedCards\<rparr>;
          p2 = p1\<lparr>won_cards := won_cards p1 @ filter (\<lambda>crd. number crd \<noteq> 0) field\<rparr>
      in g\<lparr>heap := (heap g)(winner := p2)\<rparr>)"

subsection \<open>Facts about the players' operations\<close>

text \<open>
  The cards that the players of a list hold together, each player counted once. It is
  the measure along which the recursion of \<open>playRound\<close> descends.
\<close>

definition active_score :: "nat list \<Rightarrow> game \<Rightarrow> nat" where
  "active_score ps g = sum_list (map (\<lambda>a. score (heap g a)) (remdups ps))"

text \<open>
  The loop of \<open>find_winning_players\<close> again, over the pairs of a player and the card
  played; it is equal to the loop above whenever every card has its player.
\<close>

fun winners_zip :: "(nat \<times> Card) list \<Rightarrow> nat list \<Rightarrow> Card \<Rightarrow> nat list" where
  "winners_zip [] w h = w"
| "winners_zip ((a, c) # z) w h =
     (if number c = 0 then winners_zip z w h
      else if number c > number h then winners_zip z [a] c
      else if number c = number h then winners_zip z (w @ [a]) h
      else winners_zip z w h)"

lemma shuffle_loop_props:
  "shuffle_loop i x r = (w, r') \<Longrightarrow> length w = length x \<and> (i < length x \<longrightarrow> mset w = mset x)"
proof (induction i arbitrary: x r)
  case 0
  then show ?case by simp
next
  case (Suc i)
  let ?j = "r 0 mod (Suc i + 1)"
  let ?x = "x[Suc i := x ! ?j, ?j := x ! Suc i]"
  from Suc.prems have rec: "shuffle_loop i ?x (\<lambda>k. r (Suc k)) = (w, r')"
    by (simp add: randbelow_def)
  from Suc.IH [OF rec] have len: "length w = length x"
    and ms: "i < length x \<longrightarrow> mset w = mset ?x" by simp_all
  have "mset w = mset x" if lt: "Suc i < length x"
  proof -
    have "?j < Suc i + 1" by (rule mod_less_divisor) simp
    with lt have j: "?j < length x" by linarith
    have "mset ?x = mset x" using mset_swap [OF j lt] by simp
    with ms lt show ?thesis by simp
  qed
  with len show ?case by blast
qed

lemma shuffle_props:
  assumes "shuffle x r = (w, r')"
  shows "length w = length x" and "mset w = mset x"
proof -
  from assms have s: "shuffle_loop (length x - 1) x r = (w, r')" by (simp add: shuffle_def)
  from shuffle_loop_props [OF s] show "length w = length x" by simp
  show "mset w = mset x"
  proof (cases x)
    case Nil
    with s show ?thesis by simp
  next
    case (Cons a list)
    with shuffle_loop_props [OF s] show ?thesis by simp
  qed
qed

lemma length_deque: "length (deque xs) = min maxlen (length xs)"
  by (auto simp: deque_def)

lemma refill_hand_props:
  assumes "refill_hand p r = (p', r')"
  shows "won_cards p' = []" and "length (hand p') = min maxlen (length (won_cards p))"
    and "name p' = name p"
    and "length (won_cards p) \<le> maxlen \<Longrightarrow> mset (hand p') = mset (won_cards p)"
proof -
  obtain w r1 where s: "shuffle (won_cards p) r = (w, r1)" by (cases "shuffle (won_cards p) r")
  with assms have p': "p' = p\<lparr>hand := deque w, won_cards := []\<rparr>"
    by (simp add: refill_hand_def)
  show "won_cards p' = []" "name p' = name p" by (simp_all add: p')
  show "length (hand p') = min maxlen (length (won_cards p))"
    using shuffle_props(1) [OF s] by (simp add: p' length_deque)
  show "mset (hand p') = mset (won_cards p)" if "length (won_cards p) \<le> maxlen"
    using that shuffle_props [OF s] by (simp add: p' deque_def)
qed

lemma playCard_props:
  assumes "playCard p r = (res, p', r')"
  shows "\<exists>c. res = Inr c" and "score p' \<le> score p" and "name p' = name p"
    and "res = Inr c \<Longrightarrow> number c \<noteq> 0 \<Longrightarrow> score p' < score p"
    and "score p = 0 \<Longrightarrow> res = Inr Card0 \<and> p' = p \<and> r' = r"
proof -
  have "(\<exists>c. res = Inr c) \<and> score p' \<le> score p \<and> name p' = name p
      \<and> (\<forall>c. res = Inr c \<longrightarrow> number c \<noteq> 0 \<longrightarrow> score p' < score p)
      \<and> (score p = 0 \<longrightarrow> res = Inr Card0 \<and> p' = p \<and> r' = r)"
  proof (cases "score p = 0")
    case True
    with assms show ?thesis by (auto simp: playCard_def Card0_def)
  next
    case False
    obtain p1 r1 where st: "(if isEmptyHand p then refill_hand p r else (p, r)) = (p1, r1)"
      by (cases "if isEmptyHand p then refill_hand p r else (p, r)")
    have p1: "hand p1 \<noteq> [] \<and> score p1 \<le> score p \<and> name p1 = name p"
    proof (cases "isEmptyHand p")
      case True
      with st have rf: "refill_hand p r = (p1, r1)" by simp
      from True False have w: "0 < length (won_cards p)" "hand p = []"
        by (simp_all add: score_def isEmptyHand_def)
      from refill_hand_props(1-3) [OF rf]
      have "won_cards p1 = []" "length (hand p1) = min 56 (length (won_cards p))"
        "name p1 = name p" by (simp_all add: maxlen_def)
      with w have "0 < length (hand p1)" "score p1 \<le> score p" "name p1 = name p"
        by (simp_all add: score_def)
      then show ?thesis by simp
    next
      case F: False
      with st show ?thesis by (auto simp: isEmptyHand_def)
    qed
    then obtain c h where ch: "hand p1 = c # h" by (cases "hand p1") auto
    with assms False st have "res = Inr c" "p' = p1\<lparr>hand := h\<rparr>"
      by (simp_all add: playCard_def)
    with p1 ch False show ?thesis by (auto simp: score_def)
  qed
  then show "\<exists>c. res = Inr c" and "score p' \<le> score p" and "name p' = name p"
    and "res = Inr c \<Longrightarrow> number c \<noteq> 0 \<Longrightarrow> score p' < score p"
    and "score p = 0 \<Longrightarrow> res = Inr Card0 \<and> p' = p \<and> r' = r" by blast+
qed

lemma active_score_sum: "active_score ps g = (\<Sum>a\<in>set ps. score (heap g a))"
  unfolding active_score_def
  using sum_list_distinct_conv_sum_set [of "remdups ps" "\<lambda>a. score (heap g a)"] by simp

lemma get_played_cards_props:
  "get_played_cards ps g = (res, g') \<Longrightarrow>
     (\<exists>cs. res = Inr cs \<and> length cs = length ps
         \<and> (\<forall>i<length ps. number (cs ! i) \<noteq> 0 \<longrightarrow> score (heap g' (ps ! i)) < score (heap g (ps ! i))))
     \<and> (\<forall>a. score (heap g' a) \<le> score (heap g a))
     \<and> (\<forall>a. name (heap g' a) = name (heap g a))
     \<and> (\<forall>a. a \<notin> set ps \<longrightarrow> heap g' a = heap g a)
     \<and> players g' = players g \<and> round g' = round g \<and> score_df g' = score_df g
     \<and> latestResults g' = latestResults g \<and> scoreSchema g' = scoreSchema g"
proof (induction ps arbitrary: g res g')
  case Nil
  then show ?case by auto
next
  case (Cons a ps)
  obtain r1 p1 rn1 where pc: "playCard (heap g a) (rng g) = (r1, p1, rn1)"
    by (cases "playCard (heap g a) (rng g)")
  from playCard_props(1) [OF pc] obtain c where r1: "r1 = Inr c" by blast
  let ?g1 = "g\<lparr>heap := (heap g)(a := p1), rng := rn1\<rparr>"
  obtain r2 g2 where rec: "get_played_cards ps ?g1 = (r2, g2)"
    by (cases "get_played_cards ps ?g1")
  from Cons.IH [OF rec] obtain cs where r2: "r2 = Inr cs" and len: "length cs = length ps"
    and dec: "\<forall>i<length ps. number (cs ! i) \<noteq> 0 \<longrightarrow> score (heap g2 (ps ! i)) < score (heap ?g1 (ps ! i))"
    and mono: "\<forall>b. score (heap g2 b) \<le> score (heap ?g1 b)"
    and nm: "\<forall>b. name (heap g2 b) = name (heap ?g1 b)"
    and fr: "\<forall>b. b \<notin> set ps \<longrightarrow> heap g2 b = heap ?g1 b"
    and rest: "players g2 = players ?g1" "round g2 = round ?g1" "score_df g2 = score_df ?g1"
      "latestResults g2 = latestResults ?g1" "scoreSchema g2 = scoreSchema ?g1"
    by blast
  from Cons.prems pc r1 rec r2 have res: "res = Inr (c # cs)" and g': "g' = g2" by simp_all
  have le1: "score (heap ?g1 b) \<le> score (heap g b)" for b
    using playCard_props(2) [OF pc] by simp
  have mono': "score (heap g2 b) \<le> score (heap g b)" for b
    using mono le1 [of b] by (meson le_trans)
  have dec': "score (heap g2 ((a # ps) ! i)) < score (heap g ((a # ps) ! i))"
    if i: "i < length (a # ps)" and nz: "number ((c # cs) ! i) \<noteq> 0" for i
  proof (cases i)
    case 0
    with nz have "score p1 < score (heap g a)" using playCard_props(4) [OF pc r1] by simp
    moreover have "score (heap g2 a) \<le> score p1" using mono by (auto dest: spec [of _ a])
    ultimately show ?thesis using 0 by simp
  next
    case (Suc k)
    with i nz dec have "score (heap g2 (ps ! k)) < score (heap ?g1 (ps ! k))" by simp
    with le1 [of "ps ! k"] Suc show ?thesis by simp
  qed
  have nm': "name (heap g2 b) = name (heap g b)" for b
    using nm playCard_props(3) [OF pc] by simp
  have fr': "b \<notin> set (a # ps) \<Longrightarrow> heap g2 b = heap g b" for b
    using fr by simp
  show ?case unfolding res g'
    using len dec' mono' nm' fr' rest by simp
qed

lemma find_winning_loop_zip:
  "i + length cs \<le> length ps \<Longrightarrow>
     find_winning_loop ps i cs w h = Inr (winners_zip (zip (drop i ps) cs) w h)"
proof (induction cs arbitrary: i w h)
  case Nil
  then show ?case by simp
next
  case (Cons c cs)
  then have i: "i < length ps" and rest: "(i + 1) + length cs \<le> length ps" by simp_all
  from i have d: "drop i ps = ps ! i # drop (i + 1) ps" by (simp add: Cons_nth_drop_Suc)
  show ?case using i Cons.IH [OF rest] by (simp add: d card_gt_def card_eq_def)
qed

lemma find_winning_players_zip:
  "length cs \<le> length ps \<Longrightarrow> find_winning_players ps cs = Inr (winners_zip (zip ps cs) [] Card0)"
  using find_winning_loop_zip [of 0 cs ps "[]" Card0] by (simp add: find_winning_players_def)

lemma winners_zip_filter:
  "winners_zip (filter (\<lambda>(a, c). number c \<noteq> 0) z) w h = winners_zip z w h"
  by (induction z w h rule: winners_zip.induct) auto

lemma winners_zip_subset:
  "x \<in> set (winners_zip z w h) \<Longrightarrow> x \<in> set w \<or> (\<exists>c. (x, c) \<in> set z \<and> number c \<noteq> 0)"
proof (induction z w h rule: winners_zip.induct)
  case (1 w h)
  then show ?case by simp
next
  case (2 a c z w h)
  consider (skip) "number c = 0" | (gt) "number c \<noteq> 0" "number c > number h"
    | (eq) "number c \<noteq> 0" "\<not> number c > number h" "number c = number h"
    | (lt) "number c \<noteq> 0" "\<not> number c > number h" "number c \<noteq> number h"
    by blast
  then show ?case
  proof cases
    case skip
    with 2 show ?thesis by auto
  next
    case gt
    with "2.prems" have "x \<in> set (winners_zip z [a] c)" by simp
    from "2.IH"(2) [OF gt this] gt show ?thesis by auto
  next
    case eq
    with "2.prems" have "x \<in> set (winners_zip z (w @ [a]) h)" by simp
    from "2.IH"(3) [OF eq this] eq show ?thesis by auto
  next
    case lt
    with "2.prems" have "x \<in> set (winners_zip z w h)" by simp
    from "2.IH"(4) [OF lt this] show ?thesis by auto
  qed
qed

lemma winners_zip_none:
  "\<forall>p\<in>set z. number (snd p) = 0 \<Longrightarrow> winners_zip z w h = w"
  by (induction z w h rule: winners_zip.induct) auto



lemma war_consumes:
  assumes gp: "get_played_cards ps (g\<lparr>round := round g + 1\<rparr>) = (Inr cs, g1)"
    and fw: "find_winning_players ps cs = Inr ws"
    and ne: "ws \<noteq> []"
    and gd: "get_played_cards ws g1 = (res, g2)"
  shows "active_score ws g2 < active_score ps g"
proof -
  from get_played_cards_props [OF gp] have len: "length cs = length ps"
    and dec: "\<forall>i<length ps. number (cs ! i) \<noteq> 0 \<longrightarrow> score (heap g1 (ps ! i)) < score (heap g (ps ! i))"
    and mono1: "\<forall>a. score (heap g1 a) \<le> score (heap g a)" by simp_all
  from get_played_cards_props [OF gd] have mono2: "\<forall>a. score (heap g2 a) \<le> score (heap g1 a)"
    by simp
  from fw len have ws: "ws = winners_zip (zip ps cs) [] Card0"
    by (simp add: find_winning_players_zip)
  have win: "\<exists>i<length ps. ps ! i = x \<and> number (cs ! i) \<noteq> 0" if "x \<in> set ws" for x
  proof -
    from that ws winners_zip_subset [of x "zip ps cs" "[]" Card0]
    obtain c where "(x, c) \<in> set (zip ps cs)" "number c \<noteq> 0" by auto
    then show ?thesis by (auto simp: in_set_zip)
  qed
  from ne obtain x where x: "x \<in> set ws" by (cases ws) auto
  from win [OF x] dec have xlt: "score (heap g1 x) < score (heap g x)" by auto
  have sub: "set ws \<subseteq> set ps"
  proof
    fix y assume "y \<in> set ws"
    from win [OF this] obtain i where "i < length ps" "ps ! i = y" by blast
    then show "y \<in> set ps" using nth_mem by blast
  qed
  have "(\<Sum>a\<in>set ws. score (heap g2 a)) \<le> (\<Sum>a\<in>set ws. score (heap g1 a))"
    using mono2 by (simp add: sum_mono)
  also have "\<dots> < (\<Sum>a\<in>set ws. score (heap g a))"
    by (rule sum_strict_mono_ex1) (use mono1 x xlt in auto)
  also have "\<dots> \<le> (\<Sum>a\<in>set ps. score (heap g a))"
    by (rule sum_mono2) (use sub in auto)
  finally show ?thesis by (simp add: active_score_sum)
qed

subsection \<open>\<open>playRound\<close> and \<open>breakDraw\<close>\<close>

text \<open>
  \<open>playRound\<close> with the body of \<open>breakDraw\<close> in place of its call: the field is
  extended by the played cards and one more \<open>playCard\<close> of every tied player, and the
  round is played again among the tied players. The caller's \<open>field\<close> list is not read
  after the call, so its final content is not returned. \<open>winingPlayers[0]\<close> of an empty
  list raises \<open>IndexError\<close>.
\<close>

function playRound :: "nat list \<Rightarrow> Card list \<Rightarrow> game \<Rightarrow> (error + unit) \<times> game" where
  "playRound ps field g =
     (case get_played_cards ps (g\<lparr>round := round g + 1\<rparr>) of
        (Inl e, g1) \<Rightarrow> (Inl e, g1)
      | (Inr playedCards, g1) \<Rightarrow>
          (case find_winning_players ps playedCards of
             Inl e \<Rightarrow> (Inl e, g1)
           | Inr winingPlayers \<Rightarrow>
               if length winingPlayers > 1 then
                 (case get_played_cards winingPlayers g1 of
                    (Inl e, g2) \<Rightarrow> (Inl e, g2)
                  | (Inr drawn, g2) \<Rightarrow>
                      playRound winingPlayers (field @ playedCards @ drawn) g2)
               else
                 (case winingPlayers of
                    [] \<Rightarrow> (Inl IndexError, g1)
                  | winner # _ \<Rightarrow>
                      (Inr (), update_scoreboard (award_cards winner playedCards field g1)))))"
  by pat_completeness auto

termination
proof (relation "measure (\<lambda>(ps, field, g). active_score ps g)")
  show "wf (measure (\<lambda>(ps, field, g). active_score ps g))" by simp
next
  fix ps :: "nat list" and field :: "Card list" and g :: game
    and x g1 cs r ws x2 g2 drawn
  assume "(x, g1) = get_played_cards ps (g\<lparr>round := round g + 1\<rparr>)" "x = Inr cs"
    "find_winning_players ps cs = Inr ws" "1 < length ws"
    "(x2, g2) = get_played_cards ws g1" "x2 = Inr drawn"
  then have "active_score ws g2 < active_score ps g"
    using war_consumes [of ps g cs g1 ws x2 g2] by (cases ws) auto
  then show "((ws, field @ cs @ drawn, g2), ps, field, g)
       \<in> measure (\<lambda>(ps, field, g). active_score ps g)" by simp
qed

declare playRound.simps [simp del]


text \<open>The loop of \<open>isWinner\<close>, which returns at the first player holding 52 cards.\<close>

fun isWinner_loop :: "nat list \<Rightarrow> (nat \<Rightarrow> Player) \<Rightarrow> bool" where
  "isWinner_loop [] h = False"
| "isWinner_loop (player # rest) h =
     (if score (h player) \<ge> 52 then True else isWinner_loop rest h)"

definition isWinner :: "game \<Rightarrow> bool" where
  "isWinner g = isWinner_loop (players g) (heap g)"

text \<open>
  The \<open>while\<close> loop of \<open>playGame\<close> may run forever, so it takes fuel, one unit for
  every round played from the top: \<open>None\<close> means that the fuel ran out before a player
  won. Printing and the CSV file are left out.
\<close>

fun playGame_loop :: "nat \<Rightarrow> game \<Rightarrow> ((error + unit) \<times> game) option" where
  "playGame_loop fuel g =
     (if isWinner g then Some (Inr (), g)
      else
        (case fuel of
           0 \<Rightarrow> None
         | Suc n \<Rightarrow>
             (case playRound (players g) [] g of
                (Inl e, g') \<Rightarrow> Some (Inl e, g')
              | (Inr u, g') \<Rightarrow> playGame_loop n g')))"

declare playGame_loop.simps [simp del]

definition playGame :: "nat \<Rightarrow> game \<Rightarrow> ((error + unit) \<times> game) option" where
  "playGame fuel g =
     (case distributeCards g of
        (Inl e, g1) \<Rightarrow> Some (Inl e, g1)
      | (Inr u, g1) \<Rightarrow> playGame_loop fuel (update_scoreboard g1))"

text \<open>
  A random source given by its first draws, all later draws being 0; it fixes the seed
  in the concrete runs below.
\<close>

definition draws :: "nat list \<Rightarrow> rng" where
  "draws ds = (\<lambda>k. if k < length ds then ds ! k else 0)"

text \<open>
  The game object whose players are the given ones, at the addresses \<open>0, 1, ...\<close>, with
  round 0 and an empty table, as the constructor leaves it.
\<close>

definition game_of :: "Player list \<Rightarrow> game" where
  "game_of pls =
     \<lparr>heap = (\<lambda>a. if a < length pls then pls ! a else new_Player []),
      players = [0..<length pls], round = 0,
      scoreSchema = dict_or (dict_or [(''Round'', Int16)]
                      (names_dtypes (\<lambda>a. if a < length pls then pls ! a else new_Player [])
                         [0..<length pls]))
                      [(''Total'', Int16)],
      score_df = [], latestResults = [], rng = draws []\<rparr>"

text \<open>The deck of \<open>CreateShuffleDeck\<close> before it is shuffled.\<close>

definition fresh_deck :: "Card list" where
  "fresh_deck = concat (map (\<lambda>num. map (\<lambda>color. \<lparr>number = int num + 1, color = color\<rparr>)
                                    [''BC'', ''BS'', ''RD'', ''RH'']) [0..<13])"

subsection \<open>Reading the score table\<close>



definition names_ok :: "game \<Rightarrow> bool" where
  "names_ok g = (distinct (map (\<lambda>a. name (heap g a)) (players g))
     \<and> (\<forall>a\<in>set (players g). name (heap g a) \<noteq> ''Round'' \<and> name (heap g a) \<noteq> ''Total''))"

subsection \<open>The tied players, as the specification words them\<close>



subsection \<open>Real cards\<close>



subsection \<open>Concrete games\<close>





text \<open>
  A seed that makes \<open>random.shuffle\<close> reverse the deck, and the two-player game
  constructed under it: the first player is dealt the 26 highest cards.
\<close>

definition rigged_draws :: "nat list" where
  "rigged_draws = [0..<26] @ rev [1..<26]"

definition rigged_game :: game where
  "rigged_game = projr (init 2 (draws rigged_draws))"

text \<open>
  Two hands tie all the way: they have the same even length and equal positive ranks
  at the positions 0, 2, 4, ..., the cards that are compared when every comparison is a
  tie. A seed under which the deal to two players is of this kind, and the game
  constructed under it, before and after the deal.
\<close>

fun ties :: "Card list \<Rightarrow> Card list \<Rightarrow> bool" where
  "ties [] [] = True"
| "ties (c # x # h0) (d # y # h1) = (0 < number c \<and> number c = number d \<and> ties h0 h1)"
| "ties h0 h1 = False"

definition tied_draws :: "nat list" where
  "tied_draws = [51, 50, 47, 46, 43, 42, 39, 38, 35, 34, 31, 30, 27, 26, 23, 22, 19, 18,
     15, 14, 11, 10, 7, 6, 3, 2, 19, 18, 3, 2, 11, 10, 3, 2, 15, 14, 7, 6, 3, 2, 11, 10,
     7, 6, 3, 2, 3, 2, 3, 2, 1]"

definition tied_game :: game where
  "tied_game = projr (init 2 (draws tied_draws))"

definition tied_deal :: game where
  "tied_deal = update_scoreboard (snd (distributeCards tied_game))"

subsection \<open>The states of a game\<close>

text \<open>
  The states in which the loop of \<open>playGame\<close> tests \<open>isWinner\<close>: the state after the
  deal and the first row of the table, for any accepted player count and any seed, and
  the state after every round that returns.
\<close>

inductive reachable :: "game \<Rightarrow> bool" where
  dealt: "init n r = Inr g0 \<Longrightarrow> distributeCards g0 = (Inr (), g1) \<Longrightarrow>
            reachable (update_scoreboard g1)"
| played: "reachable g \<Longrightarrow> \<not> isWinner g \<Longrightarrow> playRound (players g) [] g = (Inr (), g') \<Longrightarrow>
            reachable g'"

subsection \<open>Facts about a round\<close>

lemma get_played_cards_zero:
  "\<forall>a\<in>set ps. score (heap g a) = 0 \<Longrightarrow>
     get_played_cards ps g = (Inr (replicate (length ps) Card0), g)"
proof (induction ps)
  case Nil
  then show ?case by simp
next
  case (Cons a ps)
  then have "playCard (heap g a) (rng g) = (Inr Card0, heap g a, rng g)"
    by (simp add: playCard_def)
  with Cons show ?case by simp
qed

lemma get_played_cards_sentinel:
  "get_played_cards ps g = (Inr cs, g') \<Longrightarrow> distinct ps \<Longrightarrow> k < length ps \<Longrightarrow>
     score (heap g (ps ! k)) = 0 \<Longrightarrow> cs ! k = Card0"
proof (induction ps arbitrary: g cs k g')
  case Nil
  then show ?case by simp
next
  case (Cons a ps)
  obtain r1 p1 rn1 where pc: "playCard (heap g a) (rng g) = (r1, p1, rn1)"
    by (cases "playCard (heap g a) (rng g)")
  from playCard_props(1) [OF pc] obtain c where r1: "r1 = Inr c" by blast
  let ?g1 = "g\<lparr>heap := (heap g)(a := p1), rng := rn1\<rparr>"
  obtain r2 g2 where rec: "get_played_cards ps ?g1 = (r2, g2)"
    by (cases "get_played_cards ps ?g1")
  from get_played_cards_props [OF rec] obtain cs' where r2: "r2 = Inr cs'" by blast
  from Cons.prems(1) pc r1 rec r2 have cs: "cs = c # cs'" by simp
  show ?case
  proof (cases k)
    case 0
    with Cons.prems(4) playCard_props(5) [OF pc] r1 cs show ?thesis by simp
  next
    case (Suc j)
    with Cons.prems have j: "j < length ps" and ne: "ps ! j \<noteq> a" and d: "distinct ps" by auto
    from Cons.prems(4) Suc ne have "score (heap ?g1 (ps ! j)) = 0" by simp
    from Cons.IH [OF rec [unfolded r2] d j this] Suc cs show ?thesis by simp
  qed
qed

lemma playRound_cases [case_names war none win]:
  obtains
    (war) cs g1 ws drawn g2 where
      "get_played_cards ps (g\<lparr>round := round g + 1\<rparr>) = (Inr cs, g1)"
      "find_winning_players ps cs = Inr ws" "1 < length ws"
      "get_played_cards ws g1 = (Inr drawn, g2)"
      "playRound ps field g = playRound ws (field @ cs @ drawn) g2"
  | (none) cs g1 where
      "get_played_cards ps (g\<lparr>round := round g + 1\<rparr>) = (Inr cs, g1)"
      "find_winning_players ps cs = Inr []"
      "playRound ps field g = (Inl IndexError, g1)"
  | (win) cs g1 winner where
      "get_played_cards ps (g\<lparr>round := round g + 1\<rparr>) = (Inr cs, g1)"
      "find_winning_players ps cs = Inr [winner]"
      "playRound ps field g = (Inr (), update_scoreboard (award_cards winner cs field g1))"
proof -
  obtain x g1 where gp: "get_played_cards ps (g\<lparr>round := round g + 1\<rparr>) = (x, g1)"
    by (cases "get_played_cards ps (g\<lparr>round := round g + 1\<rparr>)")
  from get_played_cards_props [OF gp] obtain cs where x: "x = Inr cs"
    and len: "length cs = length ps" by blast
  define ws where "ws = winners_zip (zip ps cs) [] Card0"
  from len have fw: "find_winning_players ps cs = Inr ws"
    by (simp add: find_winning_players_zip ws_def)
  show thesis
  proof (cases "1 < length ws")
    case True
    obtain y g2 where gd: "get_played_cards ws g1 = (y, g2)"
      by (cases "get_played_cards ws g1")
    from get_played_cards_props [OF gd] obtain drawn where y: "y = Inr drawn" by blast
    from gp x fw True gd y
    have "playRound ps field g = playRound ws (field @ cs @ drawn) g2"
      by (subst playRound.simps) simp
    with gp x fw True gd y show thesis by (auto intro: war)
  next
    case False
    show thesis
    proof (cases ws)
      case Nil
      with gp x fw have "playRound ps field g = (Inl IndexError, g1)"
        by (subst playRound.simps) simp
      with gp x fw Nil show thesis by (auto intro: none)
    next
      case (Cons winner rest)
      with False have ws1: "ws = [winner]" by (cases rest) auto
      with gp x fw
      have "playRound ps field g = (Inr (), update_scoreboard (award_cards winner cs field g1))"
        by (subst playRound.simps) simp
      with gp x fw ws1 show thesis by (auto intro: win)
    qed
  qed
qed

lemma playRound_induct [case_names war none win]:
  assumes war: "\<And>ps field g cs g1 ws drawn g2.
      get_played_cards ps (g\<lparr>round := round g + 1\<rparr>) = (Inr cs, g1) \<Longrightarrow>
      find_winning_players ps cs = Inr ws \<Longrightarrow> 1 < length ws \<Longrightarrow>
      get_played_cards ws g1 = (Inr drawn, g2) \<Longrightarrow>
      playRound ps field g = playRound ws (field @ cs @ drawn) g2 \<Longrightarrow>
      P ws (field @ cs @ drawn) g2 \<Longrightarrow> P ps field g"
    and none: "\<And>ps field g cs g1.
      get_played_cards ps (g\<lparr>round := round g + 1\<rparr>) = (Inr cs, g1) \<Longrightarrow>
      find_winning_players ps cs = Inr [] \<Longrightarrow>
      playRound ps field g = (Inl IndexError, g1) \<Longrightarrow> P ps field g"
    and win: "\<And>ps field g cs g1 winner.
      get_played_cards ps (g\<lparr>round := round g + 1\<rparr>) = (Inr cs, g1) \<Longrightarrow>
      find_winning_players ps cs = Inr [winner] \<Longrightarrow>
      playRound ps field g = (Inr (), update_scoreboard (award_cards winner cs field g1)) \<Longrightarrow>
      P ps field g"
  shows "P ps field g"
proof (induction ps field g rule: playRound.induct)
  case (1 ps field g)
  show ?case
  proof (cases ps g field rule: playRound_cases)
    case (war cs g1 ws drawn g2)
    have "P ws (field @ cs @ drawn) g2"
      by (rule "1.IH" [OF war(1) [symmetric] refl war(2,3) war(4) [symmetric] refl])
    with war show ?thesis by (rule assms(1))
  next
    case (none cs g1)
    then show ?thesis by (rule assms(2))
  next
    case (win cs g1 winner)
    then show ?thesis by (rule assms(3))
  qed
qed






lemma names_ok_frame:
  "(\<forall>a. name (heap g' a) = name (heap g a)) \<Longrightarrow> players g' = players g \<Longrightarrow>
     names_ok g' = names_ok g"
  by (simp add: names_ok_def)

lemma award_cards_frame:
  "name (heap (award_cards w cs field g) a) = name (heap g a)"
  "players (award_cards w cs field g) = players g"
  "score_df (award_cards w cs field g) = score_df g"
  "round (award_cards w cs field g) = round g"
  by (simp_all add: award_cards_def Let_def)

lemma update_scoreboard_frame:
  "heap (update_scoreboard g) = heap g"
  "players (update_scoreboard g) = players g"
  "round (update_scoreboard g) = round g"
  by (simp_all add: update_scoreboard_def Let_def)

lemma playRound_frame:
  "(\<forall>a. name (heap (snd (playRound ps field g)) a) = name (heap g a))
     \<and> players (snd (playRound ps field g)) = players g"
proof (induction ps field g rule: playRound_induct)
  case (war ps field g cs g1 ws drawn g2)
  from get_played_cards_props [OF war(1)] get_played_cards_props [OF war(4)] war(5,6)
  show ?case by simp
next
  case (none ps field g cs g1)
  from get_played_cards_props [OF none(1)] none(3) show ?case by simp
next
  case (win ps field g cs g1 winner)
  from get_played_cards_props [OF win(1)] win(3) show ?case
    by (simp add: update_scoreboard_frame award_cards_frame)
qed



lemma distribute_loop_name: "name (distribute_loop deck c i ps h a) = name (h a)"
  by (induction ps arbitrary: i h) auto

lemma distributeCards_frame:
  assumes "distributeCards g = (x, g1)"
  shows "\<forall>a. name (heap g1 a) = name (heap g a)" "players g1 = players g"
    "score_df g1 = score_df g" "round g1 = round g"
  using assms
  by (auto simp: distributeCards_def Let_def distribute_loop_name split: prod.splits if_splits)













subsection \<open>Facts about the deal and the game loop\<close>

lemma CreateShuffleDeck_props:
  assumes "CreateShuffleDeck r = (deck, r')"
  shows "length deck = 52" and "mset deck = mset fresh_deck" and "\<forall>c\<in>set deck. 0 < number c"
proof -
  from assms have s: "shuffle fresh_deck r = (deck, r')"
    by (simp add: CreateShuffleDeck_def fresh_deck_def)
  have l: "length fresh_deck = 52" by code_simp
  with shuffle_props(1) [OF s] show "length deck = 52" by simp
  from shuffle_props(2) [OF s] show m: "mset deck = mset fresh_deck" .
  then have "set deck = set fresh_deck" by (rule mset_eq_setD)
  moreover have "\<forall>c\<in>set fresh_deck. 0 < number c" by (auto simp: fresh_deck_def)
  ultimately show "\<forall>c\<in>set deck. 0 < number c" by simp
qed

lemma distribute_loop_props:
  "distinct ps \<Longrightarrow>
     (\<forall>a. a \<notin> set ps \<longrightarrow> distribute_loop deck cpp i ps h a = h a)
     \<and> (\<forall>k<length ps. distribute_loop deck cpp i ps h (ps ! k)
           = (h (ps ! k))\<lparr>hand := extend_deque (hand (h (ps ! k)))
                                   (take cpp (drop ((i + k) * cpp) deck))\<rparr>)"
proof (induction ps arbitrary: i h)
  case Nil
  then show ?case by simp
next
  case (Cons p ps)
  let ?h = "h(p := (h p)\<lparr>hand := extend_deque (hand (h p))
              (take ((i + 1) * cpp - i * cpp) (drop (i * cpp) deck))\<rparr>)"
  have c: "(i + 1) * cpp - i * cpp = cpp" by simp
  from Cons.prems have d: "distinct ps" and np: "p \<notin> set ps" by simp_all
  from Cons.IH [OF d, of "i + 1" ?h]
  have out: "\<forall>a. a \<notin> set ps \<longrightarrow> distribute_loop deck cpp (i + 1) ps ?h a = ?h a"
    and inn: "\<forall>k<length ps. distribute_loop deck cpp (i + 1) ps ?h (ps ! k)
           = (?h (ps ! k))\<lparr>hand := extend_deque (hand (?h (ps ! k)))
                                   (take cpp (drop ((i + 1 + k) * cpp) deck))\<rparr>" by blast+
  have 1: "distribute_loop deck cpp i (p # ps) h a = h a" if "a \<notin> set (p # ps)" for a
    using that out by simp
  have 2: "distribute_loop deck cpp i (p # ps) h ((p # ps) ! k)
           = (h ((p # ps) ! k))\<lparr>hand := extend_deque (hand (h ((p # ps) ! k)))
                                   (take cpp (drop ((i + k) * cpp) deck))\<rparr>"
    if k: "k < length (p # ps)" for k
  proof (cases k)
    case 0
    with out np show ?thesis by (simp add: c)
  next
    case (Suc j)
    with k have j: "j < length ps" by simp
    with np have ne: "ps ! j \<noteq> p" by (metis nth_mem)
    from inn j ne Suc show ?thesis by simp
  qed
  from 1 2 show ?case by blast
qed

lemma deal_props:
  assumes i: "init n r = Inr g" and d: "distributeCards g = (res, g1)"
    and s: "CreateShuffleDeck r = (deck, r')"
  shows "res = Inr ()" and "players g1 = [0..<nat n]" and "score_df g1 = []" and "round g1 = 0"
    and "\<forall>k<nat n. hand (heap g1 k) = take (52 div nat n) (drop (k * (52 div nat n)) deck)
           \<and> won_cards (heap g1 k) = [] \<and> name (heap g1 k) = ''Player '' @ str (k + 1)"
proof -
  from i have n: "2 \<le> n" and g: "heap g = (\<lambda>i. new_Player (''Player '' @ str (i + 1)))"
    "players g = [0..<nat n]" "round g = 0" "score_df g = []" "rng g = r"
    by (auto simp: init_def Let_def split: if_splits)
  from CreateShuffleDeck_props(1) [OF s] have l: "length deck = 52" .
  let ?cpp = "52 div nat n"
  from d s g n l have res: "res = Inr ()"
    and g1: "g1 = g\<lparr>heap := distribute_loop deck ?cpp 0 [0..<nat n] (heap g), rng := r'\<rparr>"
    by (auto simp: distributeCards_def Let_def)
  show "res = Inr ()" by (rule res)
  from g1 g show "players g1 = [0..<nat n]" "score_df g1 = []" "round g1 = 0" by simp_all
  have "distinct [0..<nat n]" by simp
  from distribute_loop_props [OF this, of deck ?cpp 0 "heap g"]
  have inn: "\<forall>k<nat n. distribute_loop deck ?cpp 0 [0..<nat n] (heap g) k
           = (heap g k)\<lparr>hand := extend_deque (hand (heap g k)) (take ?cpp (drop (k * ?cpp) deck))\<rparr>"
    by simp
  have small: "extend_deque [] (take ?cpp xs) = take ?cpp xs" for xs :: "Card list"
  proof -
    have "?cpp \<le> 56" by (rule order_trans [OF div_le_dividend]) simp
    then have "length (take ?cpp xs) \<le> maxlen" by (simp add: maxlen_def)
    then show ?thesis by (simp add: extend_deque_def deque_def)
  qed
  show "\<forall>k<nat n. hand (heap g1 k) = take ?cpp (drop (k * ?cpp) deck)
           \<and> won_cards (heap g1 k) = [] \<and> name (heap g1 k) = ''Player '' @ str (k + 1)"
    using inn by (simp add: g1 g new_Player_def deque_def small)
qed

lemma deal_total:
  assumes i: "init n r = Inr g" and d: "distributeCards g = (res, g1)"
  shows "sum_list (map (\<lambda>a. score (heap g1 a)) (players g1)) = nat n * (52 div nat n)"
proof -
  obtain deck r' where s: "CreateShuffleDeck r = (deck, r')" by (cases "CreateShuffleDeck r")
  from CreateShuffleDeck_props(1) [OF s] have l: "length deck = 52" .
  let ?cpp = "52 div nat n"
  note dp = deal_props [OF i d s]
  have sc: "score (heap g1 k) = ?cpp" if k: "k < nat n" for k
  proof -
    from k have "(k + 1) * ?cpp \<le> nat n * ?cpp" by (intro mult_le_mono1) simp
    also have "\<dots> \<le> 52" by simp
    finally have "k * ?cpp + ?cpp \<le> 52" by simp
    with dp(5) k l show ?thesis by (simp add: score_def)
  qed
  have "sum_list (map (\<lambda>a. score (heap g1 a)) [0..<nat n])
      = sum_list (map (\<lambda>a. ?cpp) [0..<nat n])"
    by (rule arg_cong [where f = sum_list], rule map_cong) (simp_all add: sc)
  also have "\<dots> = nat n * ?cpp" by (simp add: sum_list_triv)
  finally show ?thesis by (simp add: dp(2))
qed

lemma concat_chunks:
  "concat (map (\<lambda>k. take c (drop (k * c) xs)) [0..<n]) = take (n * c) xs"
proof (induction n)
  case 0
  then show ?case by simp
next
  case (Suc n)
  have "take (n * c) xs @ take c (drop (n * c) xs) = take (n * c + c) xs"
    by (simp add: take_add)
  with Suc show ?case by (simp add: add.commute)
qed

lemma deal_all_cards:
  assumes i: "init n r = Inr g" and d: "distributeCards g = (res, g1)"
    and s: "CreateShuffleDeck r = (deck, r')" and dv: "nat n dvd 52"
  shows "concat (map (\<lambda>a. hand (heap g1 a)) (players g1)) = deck"
proof -
  note dp = deal_props [OF i d s]
  from CreateShuffleDeck_props(1) [OF s] have l: "length deck = 52" .
  have "map (\<lambda>a. hand (heap g1 a)) [0..<nat n]
      = map (\<lambda>k. take (52 div nat n) (drop (k * (52 div nat n)) deck)) [0..<nat n]"
    by (rule map_cong) (use dp(5) in simp_all)
  then have "concat (map (\<lambda>a. hand (heap g1 a)) (players g1))
      = take (nat n * (52 div nat n)) deck"
    unfolding dp(2) by (simp only: concat_chunks)
  with dv l show ?thesis by simp
qed

lemma isWinner_loop_iff: "isWinner_loop ps h \<longleftrightarrow> (\<exists>a\<in>set ps. 52 \<le> score (h a))"
  by (induction ps) auto

lemma dominated_round:
  assumes pl: "players g = [0, 1]"
    and h0: "hand (heap g 0) = c # h0" and h1: "hand (heap g 1) = d # h1"
    and dom: "0 < number d" "number d < number c"
  shows "\<exists>g'. playRound [0, 1] [] g = (Inr (), g') \<and> players g' = [0, 1]
     \<and> hand (heap g' 0) = h0 \<and> hand (heap g' 1) = h1
     \<and> won_cards (heap g' 0) = won_cards (heap g 0) @ [c, d]
     \<and> won_cards (heap g' 1) = won_cards (heap g 1)
     \<and> score_df g' = score_df g @ [latestResults g'] \<and> round g' = round g + 1"
  using assms
  by (subst playRound.simps)
     (simp add: playCard_def score_def isEmptyHand_def find_winning_players_def card_gt_def
        card_eq_def Card0_def award_cards_def update_scoreboard_def Let_def)

lemma dominated_game:
  assumes "players g = [0, 1]"
    and "hand (heap g 0) = h0" and "hand (heap g 1) = h1"
    and "list_all2 (\<lambda>c d. 0 < number d \<and> number d < number c) h0 h1"
    and "won_cards (heap g 1) = []"
    and "length (won_cards (heap g 0)) + 2 * length h0 = 52"
  shows "\<exists>g'. playGame_loop (length h0 + k) g = Some (Inr (), g')
     \<and> score (heap g' 0) = 52 \<and> isWinner g'
     \<and> length (score_df g') = length (score_df g) + length h0
     \<and> round g' = round g + int (length h0)"
  using assms
proof (induction h0 arbitrary: g h1)
  case Nil
  then have "score (heap g 0) = 52" by (simp add: score_def)
  with Nil.prems(1) have "isWinner g" by (simp add: isWinner_def)
  with \<open>score (heap g 0) = 52\<close> show ?case by (simp add: playGame_loop.simps)
next
  case (Cons c h0)
  from Cons.prems(4) obtain d h1' where h1: "h1 = d # h1'"
    and dom: "0 < number d" "number d < number c"
    and rest: "list_all2 (\<lambda>c d. 0 < number d \<and> number d < number c) h0 h1'"
    by (auto simp: list_all2_Cons1)
  from rest have len: "length h1' = length h0" by (simp add: list_all2_lengthD)
  from Cons.prems(2,3,5,6) h1 len
  have "score (heap g 0) < 52" "score (heap g 1) < 52" by (simp_all add: score_def)
  with Cons.prems(1) have nw: "\<not> isWinner g" by (simp add: isWinner_def)
  from dominated_round [OF Cons.prems(1,2) Cons.prems(3) [unfolded h1] dom]
  obtain g1 where pr: "playRound [0, 1] [] g = (Inr (), g1)" and pl: "players g1 = [0, 1]"
    and hs: "hand (heap g1 0) = h0" "hand (heap g1 1) = h1'"
    and ws: "won_cards (heap g1 0) = won_cards (heap g 0) @ [c, d]"
      "won_cards (heap g1 1) = won_cards (heap g 1)"
    and sd: "score_df g1 = score_df g @ [latestResults g1]" and rd: "round g1 = round g + 1"
    by blast
  from ws Cons.prems(5,6) have w1: "won_cards (heap g1 1) = []"
    and tot: "length (won_cards (heap g1 0)) + 2 * length h0 = 52" by simp_all
  from Cons.IH [OF pl hs rest w1 tot]
  obtain g' where lp: "playGame_loop (length h0 + k) g1 = Some (Inr (), g')"
    and fin: "score (heap g' 0) = 52" "isWinner g'"
      "length (score_df g') = length (score_df g1) + length h0"
      "round g' = round g1 + int (length h0)" by blast
  from nw pr lp Cons.prems(1)
  have "playGame_loop (length (c # h0) + k) g = Some (Inr (), g')"
    by (subst playGame_loop.simps) simp
  moreover from sd have "length (score_df g1) = Suc (length (score_df g))"
    by (metis length_append_singleton)
  ultimately show ?case using fin rd by simp
qed

subsection \<open>Facts about the states of a game\<close>






lemma playRound_zero:
  assumes "\<forall>a\<in>set ps. score (heap g a) = 0"
  shows "get_played_cards ps (g\<lparr>round := round g + 1\<rparr>)
           = (Inr (replicate (length ps) Card0), g\<lparr>round := round g + 1\<rparr>)"
    and "find_winning_players ps (replicate (length ps) Card0) = Inr []"
    and "playRound ps field g = (Inl IndexError, g\<lparr>round := round g + 1\<rparr>)"
proof -
  from assms show gp: "get_played_cards ps (g\<lparr>round := round g + 1\<rparr>)
           = (Inr (replicate (length ps) Card0), g\<lparr>round := round g + 1\<rparr>)"
    using get_played_cards_zero [of ps "g\<lparr>round := round g + 1\<rparr>"] by simp
  have "find_winning_players ps (replicate (length ps) Card0)
      = Inr (winners_zip (zip ps (replicate (length ps) Card0)) [] Card0)"
    by (rule find_winning_players_zip) simp
  also have "winners_zip (zip ps (replicate (length ps) Card0)) [] Card0 = []"
    by (rule winners_zip_none) (auto simp: in_set_zip Card0_def)
  finally show fw: "find_winning_players ps (replicate (length ps) Card0) = Inr []" .
  from gp fw show "playRound ps field g = (Inl IndexError, g\<lparr>round := round g + 1\<rparr>)"
    by (simp add: playRound.simps)
qed

lemma tied_layer:
  assumes "hand (heap g 0) = c # x # h0" and "hand (heap g 1) = d # y # h1"
    and "0 < number c" and "number c = number d"
  shows "\<exists>g2. playRound [0, 1] field g = playRound [0, 1] (field @ [c, d] @ [x, y]) g2
     \<and> hand (heap g2 0) = h0 \<and> hand (heap g2 1) = h1
     \<and> won_cards (heap g2 0) = won_cards (heap g 0)
     \<and> won_cards (heap g2 1) = won_cards (heap g 1)
     \<and> round g2 = round g + 1 \<and> score_df g2 = score_df g \<and> players g2 = players g"
  using assms
  apply (subst playRound.simps)
  apply (simp add: playCard_def score_def isEmptyHand_def find_winning_players_def card_gt_def
        card_eq_def Card0_def)
  apply (rule exI, rule conjI, rule refl)
  apply simp
  done

lemma tied_war:
  assumes "ties h0 h1" and "hand (heap g 0) = h0" and "hand (heap g 1) = h1"
    and "won_cards (heap g 0) = []" and "won_cards (heap g 1) = []"
  shows "\<exists>g'. playRound [0, 1] field g = (Inl IndexError, g')
     \<and> round g' = round g + int (length h0 div 2) + 1
     \<and> score (heap g' 0) = 0 \<and> score (heap g' 1) = 0
     \<and> score_df g' = score_df g \<and> players g' = players g"
  using assms
proof (induction h0 h1 arbitrary: g field rule: ties.induct)
  case 1
  then have z: "\<forall>a\<in>set [0, 1]. score (heap g a) = 0" by (simp add: score_def)
  from playRound_zero(3) [OF z, of field] z show ?case by simp
next
  case (2 c x h0 d y h1)
  from "2.prems"(1) have t: "0 < number c" "number c = number d" "ties h0 h1" by simp_all
  from tied_layer [OF "2.prems"(2,3) t(1,2), of field]
  obtain g2 where st: "playRound [0, 1] field g = playRound [0, 1] (field @ [c, d] @ [x, y]) g2"
    and h: "hand (heap g2 0) = h0" "hand (heap g2 1) = h1"
    and w: "won_cards (heap g2 0) = won_cards (heap g 0)"
      "won_cards (heap g2 1) = won_cards (heap g 1)"
    and r: "round g2 = round g + 1" "score_df g2 = score_df g" "players g2 = players g"
    by blast
  from w "2.prems"(4,5) have w0: "won_cards (heap g2 0) = []" "won_cards (heap g2 1) = []"
    by simp_all
  from "2.IH" [OF t(3) h w0, of "field @ [c, d] @ [x, y]"] st r show ?case by auto
qed simp_all


lemma tied_deal_facts:
  shows "reachable tied_deal" and "players tied_deal = [0, 1]" and "round tied_deal = 0"
    and "\<not> isWinner tied_deal" and "length (score_df tied_deal) = 1"
    and "\<exists>g'. playRound [0, 1] [] tied_deal = (Inl IndexError, g') \<and> round g' = 14
           \<and> score (heap g' 0) = 0 \<and> score (heap g' 1) = 0 \<and> score_df g' = score_df tied_deal"
proof -
  have a: "init 2 (draws tied_draws) = Inr tied_game"
    by (simp add: tied_game_def init_def Let_def)
  obtain res g1 where d: "distributeCards tied_game = (res, g1)"
    by (cases "distributeCards tied_game")
  obtain deck r' where s: "CreateShuffleDeck (draws tied_draws) = (deck, r')"
    by (cases "CreateShuffleDeck (draws tied_draws)")
  note dp = deal_props [OF a d s]
  from d have td: "tied_deal = update_scoreboard g1" by (simp add: tied_deal_def)
  from d dp(1) show "reachable tied_deal" unfolding td by (intro reachable.dealt [OF a]) simp
  from dp(2) show pl: "players tied_deal = [0, 1]"
    by (simp add: td update_scoreboard_frame upt_rec)
  from dp(4) show "round tied_deal = 0" by (simp add: td update_scoreboard_frame)
  from dp(3) show "length (score_df tied_deal) = 1"
    by (simp add: td update_scoreboard_def Let_def)
  from CreateShuffleDeck_props(1) [OF s] have l: "length deck = 52" .
  from dp(5) l have h: "length (hand (heap g1 0)) = 26" "length (hand (heap g1 1)) = 26"
    and w: "won_cards (heap g1 0) = []" "won_cards (heap g1 1) = []" by simp_all
  then have "score (heap g1 0) = 26" "score (heap g1 1) = 26" by (simp_all add: score_def)
  moreover from pl have "players g1 = [0, 1]" by (simp add: td update_scoreboard_frame)
  ultimately show "\<not> isWinner tied_deal"
    by (simp add: isWinner_def td update_scoreboard_frame)
  have t: "ties (hand (heap (snd (distributeCards tied_game)) 0))
                (hand (heap (snd (distributeCards tied_game)) 1))"
    by code_simp
  with d have t': "ties (hand (heap tied_deal 0)) (hand (heap tied_deal 1))"
    by (simp add: td update_scoreboard_frame)
  from tied_war [OF t' refl refl, of "[]"] w h
  show "\<exists>g'. playRound [0, 1] [] tied_deal = (Inl IndexError, g') \<and> round g' = 14
           \<and> score (heap g' 0) = 0 \<and> score (heap g' 1) = 0 \<and> score_df g' = score_df tied_deal"
    using dp(4) by (simp add: td update_scoreboard_frame) blast
qed

lemma tied_game_crash:
  "\<exists>g'. playGame (Suc k) tied_game = Some (Inl IndexError, g') \<and> round g' = 14
     \<and> score (heap g' 0) = 0 \<and> score (heap g' 1) = 0 \<and> length (score_df g') = 1"
proof -
  have a: "init 2 (draws tied_draws) = Inr tied_game"
    by (simp add: tied_game_def init_def Let_def)
  obtain res g1 where d: "distributeCards tied_game = (res, g1)"
    by (cases "distributeCards tied_game")
  obtain deck r' where s: "CreateShuffleDeck (draws tied_draws) = (deck, r')"
    by (cases "CreateShuffleDeck (draws tied_draws)")
  from deal_props(1) [OF a d s] d
  have pg: "playGame (Suc k) tied_game = playGame_loop (Suc k) tied_deal"
    by (simp add: playGame_def tied_deal_def)
  from tied_deal_facts(6) obtain g' where
    "playRound [0, 1] [] tied_deal = (Inl IndexError, g')" "round g' = 14"
    "score (heap g' 0) = 0" "score (heap g' 1) = 0" "score_df g' = score_df tied_deal" by blast
  with tied_deal_facts(2,4,5) pg show ?thesis
    by (simp add: playGame_loop.simps [of "Suc k"])
qed

text \<open>
  The names that the constructor gives are distinct and are no other column's name, and
  they stay so in every state of the game.
\<close>

lemma str_nonempty: "str n \<noteq> []"
  by (subst str.simps) simp

lemma digit_inj:
  "a < 10 \<Longrightarrow> b < 10 \<Longrightarrow> ''0123456789'' ! a = ''0123456789'' ! b \<Longrightarrow> a = b"
  using nth_eq_iff_index_eq [of "''0123456789''" a b] by simp

lemma str_inj: "str n = str m \<Longrightarrow> n = m"
proof (induction n arbitrary: m rule: str.induct)
  case (1 n)
  show ?case
  proof (cases "n < 10")
    case True
    then have n: "str n = [''0123456789'' ! n]" by (subst str.simps) simp
    show ?thesis
    proof (cases "m < 10")
      case m: True
      then have "str m = [''0123456789'' ! m]" by (subst str.simps) simp
      with n "1.prems" True m show ?thesis by (auto dest: digit_inj)
    next
      case False
      then have "str m = str (m div 10) @ [''0123456789'' ! (m mod 10)]"
        by (subst str.simps) simp
      with n "1.prems" str_nonempty [of "m div 10"] show ?thesis by (cases "str (m div 10)") auto
    qed
  next
    case False
    then have n: "str n = str (n div 10) @ [''0123456789'' ! (n mod 10)]"
      by (subst str.simps) simp
    show ?thesis
    proof (cases "m < 10")
      case True
      then have "str m = [''0123456789'' ! m]" by (subst str.simps) simp
      with n "1.prems" str_nonempty [of "n div 10"] show ?thesis by (cases "str (n div 10)") auto
    next
      case m: False
      then have "str m = str (m div 10) @ [''0123456789'' ! (m mod 10)]"
        by (subst str.simps) simp
      with n "1.prems" have e: "str (n div 10) = str (m div 10)"
        "''0123456789'' ! (n mod 10) = ''0123456789'' ! (m mod 10)" by simp_all
      from "1.IH" [OF False e(1)] have d: "n div 10 = m div 10" .
      from digit_inj [OF _ _ e(2)] have "n mod 10 = m mod 10" by simp
      with d show ?thesis by (metis div_mult_mod_eq)
    qed
  qed
qed

lemma init_names_ok: "init n r = Inr g \<Longrightarrow> names_ok g"
proof -
  assume "init n r = Inr g"
  then have h: "heap g = (\<lambda>i. new_Player (''Player '' @ str (i + 1)))"
    and p: "players g = [0..<nat n]"
    by (auto simp: init_def Let_def split: if_splits)
  have "inj_on (\<lambda>a. name (heap g a)) (set (players g))"
    by (rule inj_onI) (auto simp: h new_Player_def dest: str_inj)
  then have "distinct (map (\<lambda>a. name (heap g a)) (players g))"
    by (simp add: distinct_map p)
  then show "names_ok g" by (simp add: names_ok_def h new_Player_def)
qed

lemma reachable_names_ok: "reachable g \<Longrightarrow> names_ok g"
proof (induction rule: reachable.induct)
  case (dealt n r g0 g1)
  from init_names_ok [OF dealt(1)] distributeCards_frame(1,2) [OF dealt(2)]
  show ?case by (simp add: names_ok_def update_scoreboard_frame)
next
  case (played g g')
  from played(3) playRound_frame [of "players g" "[]" g] played.IH
  show ?case by (simp add: names_ok_def)
qed

section \<open>The properties\<close>

text \<open>
  C5. Constructing the game succeeds exactly when the player count is at least 2 and
  divides 56; otherwise it raises the assertion error and no game state exists, as with
  3 players. A successful construction has created exactly that many players.
\<close>

theorem init_succeeds_iff:
  "(playersCount \<ge> 2 \<and> 56 mod playersCount = 0 \<longrightarrow>
      (\<exists>g. init playersCount r = Inr g \<and> int (length (players g)) = playersCount))
   \<and> (\<not> (playersCount \<ge> 2 \<and> 56 mod playersCount = 0) \<longrightarrow>
      init playersCount r = Inl AssertionError)
   \<and> init 3 r = Inl AssertionError"
  by (simp add: init_def Let_def)

theorem init_succeeds_iff_witness:
  "((2::int) \<ge> 2 \<and> 56 mod (2::int) = 0)
   \<and> (\<exists>g. init 2 (draws []) = Inr g \<and> int (length (players g)) = 2)
   \<and> \<not> ((5::int) \<ge> 2 \<and> 56 mod (5::int) = 0)
   \<and> init 5 (draws []) = Inl AssertionError"
  using init_succeeds_iff [of 2 "draws []"] init_succeeds_iff [of 5 "draws []"]
  by simp

text \<open>
  C4. \<open>playCard\<close> of a player without cards returns the rank-0 sentinel and changes
  nothing. Otherwise it refills the hand from the won cards when the hand is empty, and
  then removes and returns the first card of the hand; it never raises.
\<close>

theorem playCard_behaviour:
  "number Card0 = 0
   \<and> (score p = 0 \<longrightarrow> playCard p r = (Inr Card0, p, r))
   \<and> (score p \<noteq> 0 \<and> \<not> isEmptyHand p \<longrightarrow>
        playCard p r = (Inr (hd (hand p)), p\<lparr>hand := tl (hand p)\<rparr>, r))
   \<and> (score p \<noteq> 0 \<and> isEmptyHand p \<longrightarrow>
        (\<exists>p1 r1. refill_hand p r = (p1, r1) \<and> hand p1 \<noteq> [] \<and>
           playCard p r = (Inr (hd (hand p1)), p1\<lparr>hand := tl (hand p1)\<rparr>, r1)))"
proof -
  have a: "playCard p r = (Inr (hd (hand p)), p\<lparr>hand := tl (hand p)\<rparr>, r)"
    if "score p \<noteq> 0" "\<not> isEmptyHand p"
  proof -
    from that obtain c h where "hand p = c # h" by (cases "hand p") (auto simp: isEmptyHand_def)
    with that show ?thesis by (simp add: playCard_def)
  qed
  have b: "\<exists>p1 r1. refill_hand p r = (p1, r1) \<and> hand p1 \<noteq> [] \<and>
           playCard p r = (Inr (hd (hand p1)), p1\<lparr>hand := tl (hand p1)\<rparr>, r1)"
    if "score p \<noteq> 0" "isEmptyHand p"
  proof -
    obtain p1 r1 where rf: "refill_hand p r = (p1, r1)" by (cases "refill_hand p r")
    from that have "0 < length (won_cards p)" by (simp add: score_def isEmptyHand_def)
    with refill_hand_props(2) [OF rf] have "0 < length (hand p1)" by (simp add: maxlen_def)
    then obtain c h where "hand p1 = c # h" by (cases "hand p1") auto
    with that rf show ?thesis by (simp add: playCard_def)
  qed
  show ?thesis using a b by (simp add: playCard_def Card0_def)
qed

theorem playCard_behaviour_witness:
  "score \<lparr>name = ''P'', hand = [], won_cards = []\<rparr> = 0
   \<and> playCard \<lparr>name = ''P'', hand = [], won_cards = []\<rparr> (draws [])
       = (Inr Card0, \<lparr>name = ''P'', hand = [], won_cards = []\<rparr>, draws [])
   \<and> score \<lparr>name = ''P'', hand = [\<lparr>number = 7, color = ''BC''\<rparr>, \<lparr>number = 2, color = ''RH''\<rparr>],
              won_cards = [\<lparr>number = 9, color = ''RD''\<rparr>]\<rparr> \<noteq> 0
   \<and> \<not> isEmptyHand \<lparr>name = ''P'', hand = [\<lparr>number = 7, color = ''BC''\<rparr>, \<lparr>number = 2, color = ''RH''\<rparr>],
              won_cards = [\<lparr>number = 9, color = ''RD''\<rparr>]\<rparr>
   \<and> playCard \<lparr>name = ''P'', hand = [\<lparr>number = 7, color = ''BC''\<rparr>, \<lparr>number = 2, color = ''RH''\<rparr>],
              won_cards = [\<lparr>number = 9, color = ''RD''\<rparr>]\<rparr> (draws [])
       = (Inr \<lparr>number = 7, color = ''BC''\<rparr>,
          \<lparr>name = ''P'', hand = [\<lparr>number = 2, color = ''RH''\<rparr>],
              won_cards = [\<lparr>number = 9, color = ''RD''\<rparr>]\<rparr>, draws [])
   \<and> score \<lparr>name = ''P'', hand = [], won_cards = [\<lparr>number = 9, color = ''RD''\<rparr>]\<rparr> \<noteq> 0
   \<and> isEmptyHand \<lparr>name = ''P'', hand = [], won_cards = [\<lparr>number = 9, color = ''RD''\<rparr>]\<rparr>
   \<and> fst (playCard \<lparr>name = ''P'', hand = [], won_cards = [\<lparr>number = 9, color = ''RD''\<rparr>]\<rparr> (draws []))
       = Inr \<lparr>number = 9, color = ''RD''\<rparr>"
  using playCard_behaviour [of "\<lparr>name = ''P'', hand = [], won_cards = []\<rparr>" "draws []"]
    playCard_behaviour [of "\<lparr>name = ''P'', hand = [\<lparr>number = 7, color = ''BC''\<rparr>, \<lparr>number = 2, color = ''RH''\<rparr>],
              won_cards = [\<lparr>number = 9, color = ''RD''\<rparr>]\<rparr>" "draws []"]
    playCard_behaviour [of "\<lparr>name = ''P'', hand = [], won_cards = [\<lparr>number = 9, color = ''RD''\<rparr>]\<rparr>" "draws []"]
  by (auto simp: score_def isEmptyHand_def refill_hand_def shuffle_def deque_def maxlen_def)

text \<open>
  C2 as stated fails: \<open>refill_hand\<close> replaces the hand, so the cards of a hand that is
  not empty are lost, and the new hand is a deque of at most 56 cards.
\<close>

theorem refill_hand_counterexample:
  "mset (hand (fst (refill_hand \<lparr>name = ''P'', hand = [\<lparr>number = 5, color = ''BC''\<rparr>],
                                 won_cards = [\<lparr>number = 9, color = ''RD''\<rparr>]\<rparr> (draws [])))
         @ won_cards (fst (refill_hand \<lparr>name = ''P'', hand = [\<lparr>number = 5, color = ''BC''\<rparr>],
                                 won_cards = [\<lparr>number = 9, color = ''RD''\<rparr>]\<rparr> (draws []))))
     \<noteq> mset ([\<lparr>number = 5, color = ''BC''\<rparr>] @ [\<lparr>number = 9, color = ''RD''\<rparr>])
   \<and> length (hand (fst (refill_hand \<lparr>name = ''P'', hand = [],
                 won_cards = replicate 57 \<lparr>number = 9, color = ''RD''\<rparr>\<rparr> (draws []))))
     \<noteq> length (replicate 57 \<lparr>number = 9, color = ''RD''\<rparr>)"
proof -
  obtain p' r' where e: "refill_hand \<lparr>name = ''P'', hand = [],
                 won_cards = replicate 57 \<lparr>number = 9, color = ''RD''\<rparr>\<rparr> (draws []) = (p', r')"
    by (cases "refill_hand \<lparr>name = ''P'', hand = [],
                 won_cards = replicate 57 \<lparr>number = 9, color = ''RD''\<rparr>\<rparr> (draws [])")
  from refill_hand_props(2) [OF e] have "length (hand p') = 56" by (simp add: maxlen_def)
  with e show ?thesis
    by (simp add: refill_hand_def shuffle_def deque_def maxlen_def)
qed

text \<open>
  C2, amended. After \<open>refill_hand\<close> the pile of won cards is empty and the hand holds
  56 cards or all the cards won, whichever is less. When at most 56 cards were won, the
  hand has as many cards as were won, and exactly those; when moreover the hand was
  empty at the call, as it is when \<open>playCard\<close> calls, the cards of the player are
  the same multiset before and after.
\<close>

theorem refill_hand_amended:
  assumes "refill_hand p r = (p', r')"
  shows "won_cards p' = []
    \<and> length (hand p') = min 56 (length (won_cards p))
    \<and> (length (won_cards p) \<le> 56 \<longrightarrow>
         length (hand p') = length (won_cards p) \<and> mset (hand p') = mset (won_cards p))
    \<and> (hand p = [] \<and> length (won_cards p) \<le> 56 \<longrightarrow>
         mset (hand p' @ won_cards p') = mset (hand p @ won_cards p))"
  using refill_hand_props [OF assms] by (simp add: maxlen_def)

theorem refill_hand_amended_witness:
  "refill_hand \<lparr>name = ''P'', hand = [], won_cards = [\<lparr>number = 9, color = ''RD''\<rparr>, \<lparr>number = 4, color = ''BS''\<rparr>]\<rparr> (draws [1])
     = (\<lparr>name = ''P'', hand = [\<lparr>number = 9, color = ''RD''\<rparr>, \<lparr>number = 4, color = ''BS''\<rparr>], won_cards = []\<rparr>, draws [])
   \<and> length [\<lparr>number = 9, color = ''RD''\<rparr>, \<lparr>number = 4, color = ''BS''\<rparr>] \<le> 56
   \<and> mset ([\<lparr>number = 9, color = ''RD''\<rparr>, \<lparr>number = 4, color = ''BS''\<rparr>] @ [])
      = mset ([] @ [\<lparr>number = 9, color = ''RD''\<rparr>, \<lparr>number = 4, color = ''BS''\<rparr>])"
proof -
  have e: "refill_hand \<lparr>name = ''P'', hand = [], won_cards = [\<lparr>number = 9, color = ''RD''\<rparr>, \<lparr>number = 4, color = ''BS''\<rparr>]\<rparr> (draws [1])
     = (\<lparr>name = ''P'', hand = [\<lparr>number = 9, color = ''RD''\<rparr>, \<lparr>number = 4, color = ''BS''\<rparr>], won_cards = []\<rparr>, draws [])"
    by (auto simp: refill_hand_def shuffle_def randbelow_def draws_def deque_def maxlen_def)
  from refill_hand_amended [OF e] e show ?thesis by simp
qed

text \<open>
  C6. In a round played by distinct players, a player whose played card has rank 0 is not
  among the winning players that \<open>find_winning_players\<close> computes, from whom
  \<open>playRound\<close> takes the winner; a player without cards plays the sentinel and so is
  not among them either. The cards of rank 0 do not take part in the comparison: the
  winning players are the same when these cards and their players are removed.
\<close>

theorem sentinel_never_wins:
  assumes "distinct ps" and "get_played_cards ps g = (Inr cs, g')"
    and "find_winning_players ps cs = Inr ws" and "k < length ps"
  shows "(number (cs ! k) = 0 \<longrightarrow> ps ! k \<notin> set ws)
    \<and> (score (heap g (ps ! k)) = 0 \<longrightarrow> cs ! k = Card0 \<and> ps ! k \<notin> set ws)
    \<and> find_winning_players (map fst (filter (\<lambda>(a, c). number c \<noteq> 0) (zip ps cs)))
         (map snd (filter (\<lambda>(a, c). number c \<noteq> 0) (zip ps cs))) = Inr ws"
proof -
  from get_played_cards_props [OF assms(2)] have len: "length cs = length ps" by simp
  with assms(3) have ws: "ws = winners_zip (zip ps cs) [] Card0"
    by (simp add: find_winning_players_zip)
  have out: "ps ! k \<notin> set ws" if z: "number (cs ! k) = 0"
  proof
    assume "ps ! k \<in> set ws"
    with ws winners_zip_subset [of "ps ! k" "zip ps cs" "[]" Card0]
    obtain c where "(ps ! k, c) \<in> set (zip ps cs)" "number c \<noteq> 0" by auto
    then obtain i where i: "i < length ps" "ps ! i = ps ! k" "cs ! i = c"
      by (auto simp: in_set_zip)
    with assms(1,4) have "i = k" by (simp add: nth_eq_iff_index_eq)
    with i z \<open>number c \<noteq> 0\<close> show False by simp
  qed
  have sent: "cs ! k = Card0" if "score (heap g (ps ! k)) = 0"
    using get_played_cards_sentinel [OF assms(2,1,4) that] .
  let ?z = "filter (\<lambda>(a, c). number c \<noteq> 0) (zip ps cs)"
  have "find_winning_players (map fst ?z) (map snd ?z)
      = Inr (winners_zip (zip (map fst ?z) (map snd ?z)) [] Card0)"
    by (rule find_winning_players_zip) simp
  also have "zip (map fst ?z) (map snd ?z) = ?z" by (simp add: zip_map_fst_snd)
  also have "winners_zip ?z [] Card0 = ws" by (simp add: ws winners_zip_filter)
  finally have "find_winning_players (map fst ?z) (map snd ?z) = Inr ws" .
  with out sent show ?thesis by (auto simp: Card0_def)
qed

theorem sentinel_never_wins_witness:
  "distinct [0, 1::nat]
   \<and> fst (get_played_cards [0, 1]
        (game_of [\<lparr>name = ''Player 1'', hand = [\<lparr>number = 7, color = ''BC''\<rparr>], won_cards = []\<rparr>,
                  \<lparr>name = ''Player 2'', hand = [], won_cards = []\<rparr>]))
       = Inr [\<lparr>number = 7, color = ''BC''\<rparr>, Card0]
   \<and> find_winning_players [0, 1] [\<lparr>number = 7, color = ''BC''\<rparr>, Card0] = Inr [0]
   \<and> score (heap (game_of [\<lparr>name = ''Player 1'', hand = [\<lparr>number = 7, color = ''BC''\<rparr>], won_cards = []\<rparr>,
                  \<lparr>name = ''Player 2'', hand = [], won_cards = []\<rparr>]) ([0, 1] ! 1)) = 0
   \<and> [0, 1::nat] ! 1 \<notin> set [0]"
proof -
  let ?g = "game_of [\<lparr>name = ''Player 1'', hand = [\<lparr>number = 7, color = ''BC''\<rparr>], won_cards = []\<rparr>,
                  \<lparr>name = ''Player 2'', hand = [], won_cards = []\<rparr>]"
  obtain res g' where gp: "get_played_cards [0, 1] ?g = (res, g')"
    by (cases "get_played_cards [0, 1] ?g")
  then have res: "res = Inr [\<lparr>number = 7, color = ''BC''\<rparr>, Card0]"
    by (auto simp: game_of_def playCard_def score_def isEmptyHand_def split: prod.splits)
  have fw: "find_winning_players [0, 1] [\<lparr>number = 7, color = ''BC''\<rparr>, Card0] = Inr [0]"
    by (simp add: find_winning_players_def Card0_def card_gt_def card_eq_def)
  have sc: "score (heap ?g ([0, 1] ! 1)) = 0" by (simp add: game_of_def score_def)
  from sentinel_never_wins [OF _ gp [unfolded res] fw, of 1] gp res fw sc
  show ?thesis by simp
qed

text \<open>
  C10. When every active player has no cards, every card played is the sentinel, no
  player wins, and \<open>playRound\<close> raises \<open>IndexError\<close> at \<open>winingPlayers[0]\<close> in a
  state that differs from the one before the call in the round counter, which is one
  higher. A game reaches this: there is a state of a game, after a deal of the 52 cards
  to two players, from which \<open>playRound\<close> on all the players ends in this error with
  every player out of cards and the round counter raised, and \<open>playGame\<close> under that
  seed ends with the error, for any fuel of at least one round.
\<close>

theorem playRound_all_sentinel:
  "((\<forall>a\<in>set ps. score (heap g a) = 0) \<longrightarrow>
      get_played_cards ps (g\<lparr>round := round g + 1\<rparr>)
           = (Inr (replicate (length ps) Card0), g\<lparr>round := round g + 1\<rparr>)
      \<and> find_winning_players ps (replicate (length ps) Card0) = Inr []
      \<and> playRound ps field g = (Inl IndexError, g\<lparr>round := round g + 1\<rparr>))
   \<and> (\<exists>g1 g'. reachable g1 \<and> playRound (players g1) [] g1 = (Inl IndexError, g')
         \<and> round g1 < round g' \<and> (\<forall>a\<in>set (players g1). score (heap g' a) = 0))
   \<and> (\<exists>g'. playGame (Suc k) tied_game = Some (Inl IndexError, g') \<and> round g' = 14)"
proof -
  from tied_deal_facts(6) obtain g' where t: "playRound [0, 1] [] tied_deal = (Inl IndexError, g')"
    "round g' = 14" "score (heap g' 0) = 0" "score (heap g' 1) = 0" by blast
  with tied_deal_facts(1-3)
  have "reachable tied_deal \<and> playRound (players tied_deal) [] tied_deal = (Inl IndexError, g')
         \<and> round tied_deal < round g' \<and> (\<forall>a\<in>set (players tied_deal). score (heap g' a) = 0)"
    by simp
  then have "\<exists>g1 g'. reachable g1 \<and> playRound (players g1) [] g1 = (Inl IndexError, g')
         \<and> round g1 < round g' \<and> (\<forall>a\<in>set (players g1). score (heap g' a) = 0)" by blast
  moreover from tied_game_crash [of k]
  have "\<exists>g'. playGame (Suc k) tied_game = Some (Inl IndexError, g') \<and> round g' = 14" by blast
  ultimately show ?thesis
    using playRound_zero(1,2) [of ps g] playRound_zero(3) [of ps g field] by blast
qed

theorem playRound_all_sentinel_witness:
  "score (heap (game_of [new_Player ''Player 1'', new_Player ''Player 2'']) 0) = 0
   \<and> score (heap (game_of [new_Player ''Player 1'', new_Player ''Player 2'']) 1) = 0
   \<and> fst (playRound [0, 1] [] (game_of [new_Player ''Player 1'', new_Player ''Player 2''])) = Inl IndexError
   \<and> round (game_of [new_Player ''Player 1'', new_Player ''Player 2'']) = 0
   \<and> round (snd (playRound [0, 1] [] (game_of [new_Player ''Player 1'', new_Player ''Player 2'']))) = 1"
proof -
  have z: "\<forall>a\<in>set [0, 1]. score (heap (game_of [new_Player ''Player 1'', new_Player ''Player 2'']) a) = 0"
    by (simp add: game_of_def new_Player_def score_def deque_def)
  from playRound_all_sentinel [of "[0, 1]" "game_of [new_Player ''Player 1'', new_Player ''Player 2'']" "[]" 0,
      THEN conjunct1] z
  show ?thesis by (simp add: game_of_def)
qed








text \<open>
  C1 fails for the accepted player counts that do not divide 52. With 7 players, for
  every seed, the construction succeeds, every player is dealt \<open>52 // 7 = 7\<close> cards, and
  the players hold 49 cards together: the last three cards of the deck are dealt to
  nobody.
\<close>

theorem deal_seven_players:
  "(case init 7 r of
      Inl e \<Rightarrow> False
    | Inr g \<Rightarrow>
        (case distributeCards g of
           (res, g1) \<Rightarrow> res = Inr () \<and> length (players g1) = 7
             \<and> sum_list (map (\<lambda>a. score (heap g1 a)) (players g1)) = 49))"
proof -
  obtain g where i: "init 7 r = Inr g" by (simp add: init_def Let_def)
  obtain res g1 where d: "distributeCards g = (res, g1)" by (cases "distributeCards g")
  obtain deck r' where s: "CreateShuffleDeck r = (deck, r')" by (cases "CreateShuffleDeck r")
  from deal_props(1,2) [OF i d s] deal_total [OF i d] i d show ?thesis by simp
qed

text \<open>
  C9. \<open>isWinner\<close> is true exactly when some player of the game holds at least 52
  cards. In a game of two players, whenever the deal gives the first player, card by
  card in the order of the hands, a higher rank than the second, \<open>playGame\<close> ends
  after 26 rounds, for any fuel of at least 26: the first player holds 52 cards,
  \<open>isWinner\<close> is true, and the table has 27 rows.
\<close>

theorem game_over_after_26_rounds:
  assumes "init 2 r = Inr g0" and "distributeCards g0 = (res, g1)"
    and "list_all2 (\<lambda>c d. number d < number c) (hand (heap g1 0)) (hand (heap g1 1))"
  shows "(isWinner g \<longleftrightarrow> (\<exists>a\<in>set (players g). 52 \<le> score (heap g a)))
    \<and> (\<exists>g'. playGame (26 + k) g0 = Some (Inr (), g')
          \<and> score (heap g' 0) = 52 \<and> isWinner g'
          \<and> length (score_df g') = 27 \<and> round g' = 26)"
proof -
  obtain deck r' where s: "CreateShuffleDeck r = (deck, r')" by (cases "CreateShuffleDeck r")
  note dp = deal_props [OF assms(1,2) s]
  from CreateShuffleDeck_props [OF s] have l: "length deck = 52"
    and pos: "\<forall>c\<in>set deck. 0 < number c" by simp_all
  from dp(5) have h0: "hand (heap g1 0) = take 26 deck" and h1: "hand (heap g1 1) = take 26 (drop 26 deck)"
    and w: "won_cards (heap g1 0) = []" "won_cards (heap g1 1) = []" by simp_all
  let ?g = "update_scoreboard g1"
  have pl: "players ?g = [0, 1]" using dp(2) by (simp add: update_scoreboard_frame upt_rec)
  have "\<forall>d\<in>set (hand (heap g1 1)). 0 < number d"
    using pos h1 by (auto dest!: in_set_takeD in_set_dropD)
  with assms(3) have dom: "list_all2 (\<lambda>c d. 0 < number d \<and> number d < number c)
      (hand (heap g1 0)) (hand (heap g1 1))"
    by (auto simp: list_all2_conv_all_nth)
  from h0 l have len: "length (hand (heap g1 0)) = 26" by simp
  have "\<exists>g'. playGame_loop (length (hand (heap g1 0)) + k) ?g = Some (Inr (), g')
     \<and> score (heap g' 0) = 52 \<and> isWinner g'
     \<and> length (score_df g') = length (score_df ?g) + length (hand (heap g1 0))
     \<and> round g' = round ?g + int (length (hand (heap g1 0)))"
    by (rule dominated_game [OF pl _ _ dom])
       (use w len in \<open>simp_all add: update_scoreboard_frame\<close>)
  then obtain g' where "playGame_loop (26 + k) ?g = Some (Inr (), g')"
    "score (heap g' 0) = 52" "isWinner g'"
    "length (score_df g') = length (score_df ?g) + 26" "round g' = round ?g + 26"
    by (auto simp: len)
  moreover have "length (score_df ?g) = 1" "round ?g = 0"
    using dp(3,4) by (simp_all add: update_scoreboard_def Let_def)
  moreover have "playGame (26 + k) g0 = playGame_loop (26 + k) ?g"
    using assms(2) dp(1) by (simp add: playGame_def)
  ultimately have "\<exists>g'. playGame (26 + k) g0 = Some (Inr (), g')
          \<and> score (heap g' 0) = 52 \<and> isWinner g'
          \<and> length (score_df g') = 27 \<and> round g' = 26" by simp
  then show ?thesis by (simp add: isWinner_def isWinner_loop_iff)
qed

theorem game_over_after_26_rounds_witness:
  "init 2 (draws rigged_draws) = Inr rigged_game
   \<and> list_all2 (\<lambda>c d. number d < number c)
        (hand (heap (snd (distributeCards rigged_game)) 0))
        (hand (heap (snd (distributeCards rigged_game)) 1))
   \<and> map number (hand (heap (snd (distributeCards rigged_game)) 0))
      = [13, 13, 13, 13, 12, 12, 12, 12, 11, 11, 11, 11, 10, 10, 10, 10, 9, 9, 9, 9, 8, 8, 8, 8, 7, 7]
   \<and> map number (hand (heap (snd (distributeCards rigged_game)) 1))
      = [7, 7, 6, 6, 6, 6, 5, 5, 5, 5, 4, 4, 4, 4, 3, 3, 3, 3, 2, 2, 2, 2, 1, 1, 1, 1]
   \<and> (\<exists>g'. playGame 26 rigged_game = Some (Inr (), g')
          \<and> score (heap g' 0) = 52 \<and> isWinner g'
          \<and> length (score_df g') = 27 \<and> round g' = 26)"
proof -
  have a: "init 2 (draws rigged_draws) = Inr rigged_game"
    by (simp add: rigged_game_def init_def Let_def)
  have b: "distributeCards rigged_game
      = (fst (distributeCards rigged_game), snd (distributeCards rigged_game))" by simp
  have c: "list_all2 (\<lambda>c d. number d < number c)
        (hand (heap (snd (distributeCards rigged_game)) 0))
        (hand (heap (snd (distributeCards rigged_game)) 1))"
    by code_simp
  have d: "map number (hand (heap (snd (distributeCards rigged_game)) 0))
      = [13, 13, 13, 13, 12, 12, 12, 12, 11, 11, 11, 11, 10, 10, 10, 10, 9, 9, 9, 9, 8, 8, 8, 8, 7, 7]"
    "map number (hand (heap (snd (distributeCards rigged_game)) 1))
      = [7, 7, 6, 6, 6, 6, 5, 5, 5, 5, 4, 4, 4, 4, 3, 3, 3, 3, 2, 2, 2, 2, 1, 1, 1, 1]"
    by code_simp+
  from game_over_after_26_rounds [OF a b c, of rigged_game 0, THEN conjunct2] a c d
  show ?thesis by simp
qed

end
